theory Spec2Isabelle
  imports Main
begin

section \<open>The migration scripts of \<open>alembic/versions\<close>\<close>

text \<open>
  Each file of \<open>alembic/versions\<close> is a Python module with four module-level
  constants (\<open>revision\<close>, \<open>down_revision\<close>, \<open>branch_labels\<close>, \<open>depends_on\<close>)
  and two functions, \<open>upgrade()\<close> and \<open>downgrade()\<close>, whose bodies are straight-line
  sequences of calls to \<open>op.add_column\<close>, \<open>op.create_foreign_key\<close>,
  \<open>op.drop_constraint\<close> and \<open>op.drop_column\<close>. A module is modelled as a record; a
  function body as the list of its calls, in the order Python executes them.
\<close>

subsection \<open>Columns and schema operations\<close>

text \<open>The column types the scripts construct: \<open>sa.Integer()\<close>, \<open>sa.String()\<close>,
  \<open>sa.Boolean()\<close> and \<open>sa.TIMESTAMP(timezone=...)\<close>.\<close>

datatype sa_type = sa_Integer | sa_String | sa_Boolean | sa_TIMESTAMP bool

text \<open>A \<open>server_default\<close> is either a plain string (\<open>'TRUE'\<close>) or a SQL text clause
  (\<open>sa.text('NOW()')\<close>).\<close>

datatype default_clause = plain_default string | sa_text string

text \<open>\<open>sa.Column(name, type, nullable=..., server_default=...)\<close>; a missing
  \<open>server_default\<close> keyword is \<open>None\<close>.\<close>

record column =
  col_name :: string
  col_type :: sa_type
  nullable :: bool
  server_default :: "default_clause option"

text \<open>The four \<open>op.*\<close> calls, with the arguments the scripts pass:
  \<open>add_column(table, column)\<close>,
  \<open>create_foreign_key(name, source_table, referent_table, local_cols, remote_cols, ondelete)\<close>,
  \<open>drop_constraint(name, table_name)\<close> and \<open>drop_column(table, column_name)\<close>.\<close>

datatype schema_edit =
    add_column string column
  | create_foreign_key string string string "string list" "string list" "string option"
  | drop_constraint string string
  | drop_column string string

record migration =
  revision :: string
  down_revision :: "string option"
  branch_labels :: "string list option"
  depends_on :: "string list option"
  upgrade :: "schema_edit list"
  downgrade :: "schema_edit list"

subsection \<open>The three modules\<close>

text \<open>\<open>134d9a43f339_add_content_column_to_posts_table.py\<close>\<close>

definition step_134d9a43f339 :: migration where
  "step_134d9a43f339 =
     \<lparr> revision = ''134d9a43f339'',
       down_revision = Some ''fa8d6eac1730'',
       branch_labels = None,
       depends_on = None,
       upgrade =
         [add_column ''posts''
            \<lparr> col_name = ''content'', col_type = sa_String, nullable = False,
              server_default = None \<rparr>],
       downgrade = [drop_column ''posts'' ''content''] \<rparr>"

text \<open>\<open>2b864134392f_add_foreign_key_to_posts_table.py\<close>\<close>

definition step_2b864134392f :: migration where
  "step_2b864134392f =
     \<lparr> revision = ''2b864134392f'',
       down_revision = Some ''edafe56964a0'',
       branch_labels = None,
       depends_on = None,
       upgrade =
         [add_column ''posts''
            \<lparr> col_name = ''owner_id'', col_type = sa_Integer, nullable = False,
              server_default = None \<rparr>,
          create_foreign_key ''post_user_fk'' ''posts'' ''users'' [''owner_id''] [''id'']
            (Some ''CASCADE'')],
       downgrade =
         [drop_constraint ''post_users_fk'' ''posts'',
          drop_column ''posts'' ''owner_id''] \<rparr>"

text \<open>\<open>5b5d2975fa05_add_last_few_columns_to_posts_table.py\<close>\<close>

definition step_5b5d2975fa05 :: migration where
  "step_5b5d2975fa05 =
     \<lparr> revision = ''5b5d2975fa05'',
       down_revision = Some ''2b864134392f'',
       branch_labels = None,
       depends_on = None,
       upgrade =
         [add_column ''posts''
            \<lparr> col_name = ''published'', col_type = sa_Boolean, nullable = False,
              server_default = Some (plain_default ''TRUE'') \<rparr>,
          add_column ''posts''
            \<lparr> col_name = ''created_at'', col_type = sa_TIMESTAMP True, nullable = False,
              server_default = Some (sa_text ''NOW()'') \<rparr>],
       downgrade =
         [drop_column ''posts'' ''published'',
          drop_column ''posts'' ''created_at''] \<rparr>"

text \<open>The scripts of the directory, oldest first (by their \<open>Create Date\<close>).\<close>

definition versions :: "migration list" where
  "versions = [step_134d9a43f339, step_2b864134392f, step_5b5d2975fa05]"

subsection \<open>Reading a sequence of operations\<close>

text \<open>The \<open>(table, column)\<close> pairs a sequence adds and drops, and the constraint
  names it creates and drops, each in execution order.\<close>

fun added_columns :: "schema_edit list \<Rightarrow> (string \<times> string) list" where
  "added_columns [] = []"
| "added_columns (add_column t c # es) = (t, col_name c) # added_columns es"
| "added_columns (_ # es) = added_columns es"

fun dropped_columns :: "schema_edit list \<Rightarrow> (string \<times> string) list" where
  "dropped_columns [] = []"
| "dropped_columns (drop_column t n # es) = (t, n) # dropped_columns es"
| "dropped_columns (_ # es) = dropped_columns es"

fun created_constraints :: "schema_edit list \<Rightarrow> (string \<times> string) list" where
  "created_constraints [] = []"
| "created_constraints (create_foreign_key n src _ _ _ _ # es) =
     (n, src) # created_constraints es"
| "created_constraints (_ # es) = created_constraints es"

fun dropped_constraints :: "schema_edit list \<Rightarrow> (string \<times> string) list" where
  "dropped_constraints [] = []"
| "dropped_constraints (drop_constraint n t # es) = (n, t) # dropped_constraints es"
| "dropped_constraints (_ # es) = dropped_constraints es"

text \<open>The first and the last element of a list, when it has one.\<close>

fun first_of :: "'a list \<Rightarrow> 'a option" where
  "first_of [] = None"
| "first_of (x # _) = Some x"

definition last_of :: "'a list \<Rightarrow> 'a option" where
  "last_of xs = first_of (rev xs)"

text \<open>The table an operation alters: the table that gains or loses a column or a
  constraint. For \<open>create_foreign_key\<close> this is \<open>source_table\<close>; the referent table
  is only named by the constraint.\<close>

fun altered_table :: "schema_edit \<Rightarrow> string" where
  "altered_table (add_column t _) = t"
| "altered_table (create_foreign_key _ src _ _ _ _) = src"
| "altered_table (drop_constraint _ t) = t"
| "altered_table (drop_column t _) = t"

text \<open>An \<open>add_column\<close> whose column is \<open>nullable=False\<close> and has no
  \<open>server_default\<close>.\<close>

fun required_without_default :: "schema_edit \<Rightarrow> bool" where
  "required_without_default (add_column _ c) = (\<not> nullable c \<and> server_default c = None)"
| "required_without_default _ = False"

text \<open>The inverse of an operation, as the specification's data model pairs them:
  an added column is dropped, a created foreign key is dropped by its name and table.
  A drop has no inverse here: it does not say what to put back.\<close>

fun inverse_edit :: "schema_edit \<Rightarrow> schema_edit option" where
  "inverse_edit (add_column t c) = Some (drop_column t (col_name c))"
| "inverse_edit (create_foreign_key n src _ _ _ _) = Some (drop_constraint n src)"
| "inverse_edit _ = None"

text \<open>The exact inverse of a sequence undoes its operations last to first.\<close>

definition inverse_sequence :: "schema_edit list \<Rightarrow> schema_edit option list" where
  "inverse_sequence es = map inverse_edit (rev es)"

section \<open>The schema and the executor of schema operations\<close>

text \<open>
  Modelled from the spec: the schema-edit executor. The scripts hand every operation
  to the migration library (\<open>from alembic import op\<close>), which issues DDL against the
  database; neither is part of the repository. The specification calls this the
  schema-edit executor: "given a SchemaEdit, issues the corresponding DDL against the
  live schema and reports success or a structured failure". The model below is the
  smallest schema on which the four operations have an effect: the tables that exist,
  the columns of each table in the order they were added, and the foreign keys of
  each table. An operation fails when the object it needs is missing or the object it
  creates exists already; otherwise it changes exactly the object it names. Rows,
  column defaults at insertion and cascading drops are outside the model.
\<close>

record foreign_key =
  fk_name :: string
  fk_table :: string
  fk_referent :: string
  fk_local_cols :: "string list"
  fk_remote_cols :: "string list"
  fk_ondelete :: "string option"

record schema =
  tables :: "string list"
  columns :: "(string \<times> column) list"
  foreign_keys :: "foreign_key list"

datatype cause =
    NoSuchTable string
  | NoSuchColumn string string
  | DuplicateColumn string string
  | NoSuchConstraint string string
  | DuplicateConstraint string string

text \<open>The \<open>(table, column name)\<close> pairs of a schema, in column order.\<close>

definition column_names :: "schema \<Rightarrow> (string \<times> string) list" where
  "column_names s = map (\<lambda>tc. (fst tc, col_name (snd tc))) (columns s)"

definition has_column :: "schema \<Rightarrow> string \<Rightarrow> string \<Rightarrow> bool" where
  "has_column s t n = ((t, n) \<in> set (column_names s))"

definition has_constraint :: "schema \<Rightarrow> string \<Rightarrow> string \<Rightarrow> bool" where
  "has_constraint s n t = ((n, t) \<in> set (map (\<lambda>k. (fk_name k, fk_table k)) (foreign_keys s)))"

text \<open>Modelled from the spec: the executor's answer to one operation, the new schema
  or the cause of the failure.\<close>

fun exec_edit :: "schema_edit \<Rightarrow> schema \<Rightarrow> cause + schema" where
  "exec_edit (add_column t c) s =
     (if t \<notin> set (tables s) then Inl (NoSuchTable t)
      else if has_column s t (col_name c) then Inl (DuplicateColumn t (col_name c))
      else Inr (s\<lparr>columns := columns s @ [(t, c)]\<rparr>))"
| "exec_edit (create_foreign_key n src ref lcols rcols od) s =
     (if src \<notin> set (tables s) then Inl (NoSuchTable src)
      else if ref \<notin> set (tables s) then Inl (NoSuchTable ref)
      else case find (\<lambda>c. \<not> has_column s src c) lcols of
        Some c \<Rightarrow> Inl (NoSuchColumn src c)
      | None \<Rightarrow>
         (case find (\<lambda>c. \<not> has_column s ref c) rcols of
            Some c \<Rightarrow> Inl (NoSuchColumn ref c)
          | None \<Rightarrow>
             if has_constraint s n src then Inl (DuplicateConstraint n src)
             else Inr (s\<lparr>foreign_keys := foreign_keys s @
                    [\<lparr> fk_name = n, fk_table = src, fk_referent = ref,
                       fk_local_cols = lcols, fk_remote_cols = rcols,
                       fk_ondelete = od \<rparr>]\<rparr>)))"
| "exec_edit (drop_constraint n t) s =
     (if t \<notin> set (tables s) then Inl (NoSuchTable t)
      else if \<not> has_constraint s n t then Inl (NoSuchConstraint n t)
      else Inr (s\<lparr>foreign_keys :=
               filter (\<lambda>k. \<not> (fk_name k = n \<and> fk_table k = t)) (foreign_keys s)\<rparr>))"
| "exec_edit (drop_column t n) s =
     (if t \<notin> set (tables s) then Inl (NoSuchTable t)
      else if \<not> has_column s t n then Inl (NoSuchColumn t n)
      else Inr (s\<lparr>columns :=
               filter (\<lambda>tc. \<not> (fst tc = t \<and> col_name (snd tc) = n)) (columns s)\<rparr>))"

text \<open>What a schema says about one table: whether it exists, its columns and its
  foreign keys.\<close>

definition table_schema :: "schema \<Rightarrow> string \<Rightarrow> bool \<times> column list \<times> foreign_key list" where
  "table_schema s t =
     (t \<in> set (tables s),
      map snd (filter (\<lambda>tc. fst tc = t) (columns s)),
      filter (\<lambda>k. fk_table k = t) (foreign_keys s))"

section \<open>The migration chain\<close>

text \<open>
  Modelled from the spec: the MigrationChain component (\<open>register\<close>, \<open>resolvePath\<close>,
  \<open>apply\<close>, \<open>revert\<close>, \<open>migrate\<close>) and its ChainState. The repository leaves
  discovery, ordering and execution of the scripts to the migration library; the
  specification describes them as an engine of its own, and the definitions of this
  section follow its section 4.1 sentence by sentence. The executor is a parameter
  of the engine, as the specification makes it an external collaborator; the engine
  works over any type of database state.
\<close>

datatype direction = Ascending | Descending

datatype error =
    DuplicateRevision string
  | DanglingReference string
  | NoPath "string option" "string option"
  | ApplyFailed string cause
  | RevertFailed string cause

record 'db world =
  db :: 'db
  chain_state :: "string option"

definition revisions :: "migration list \<Rightarrow> string list" where
  "revisions reg = map revision reg"

definition lookup :: "migration list \<Rightarrow> string \<Rightarrow> migration option" where
  "lookup reg r = find (\<lambda>s. revision s = r) reg"

text \<open>Modelled from the spec: \<open>register(step)\<close> "inserts a MigrationStep; fails
  with DuplicateRevision if the revision id already exists; fails with
  DanglingReference if downRevision refers to an unregistered revision (unless
  null)". Both errors carry the revision id of the step that is refused.\<close>

definition register :: "migration \<Rightarrow> migration list \<Rightarrow> error + migration list" where
  "register step reg =
     (if revision step \<in> set (revisions reg) then Inl (DuplicateRevision (revision step))
      else case down_revision step of
        None \<Rightarrow> Inr (reg @ [step])
      | Some d \<Rightarrow>
          if d \<in> set (revisions reg) then Inr (reg @ [step])
          else Inl (DanglingReference (revision step)))"

text \<open>Modelled from the spec: registration at startup ("MigrationSteps are
  registered once at startup", "no partial registration"): the steps are registered
  one after the other, and the first error is fatal.\<close>

fun register_all :: "migration list \<Rightarrow> migration list \<Rightarrow> error + migration list" where
  "register_all [] reg = Inr reg"
| "register_all (s # ss) reg =
     (case register s reg of Inl e \<Rightarrow> Inl e | Inr reg' \<Rightarrow> register_all ss reg')"

text \<open>The predecessor relation of a registry: every step links its revision to its
  \<open>down_revision\<close> (\<open>None\<close> below the root).\<close>

definition pred_rel :: "migration list \<Rightarrow> (string option \<times> string option) set" where
  "pred_rel reg = (\<lambda>s. (Some (revision s), down_revision s)) ` set reg"

text \<open>The steps without a predecessor.\<close>

definition roots :: "migration list \<Rightarrow> migration list" where
  "roots reg = filter (\<lambda>s. down_revision s = None) reg"

text \<open>Modelled from the spec: the walk of \<open>resolvePath\<close>. \<open>walk n reg stop cur\<close>
  follows the predecessor pointers from \<open>cur\<close> down to \<open>stop\<close> and returns the steps
  it passes, newest first (\<open>stop\<close>'s own step is not among them). It gives up after
  \<open>n\<close> steps, or when a pointer leaves the registry.\<close>

fun walk :: "nat \<Rightarrow> migration list \<Rightarrow> string option \<Rightarrow> string option \<Rightarrow> migration list option" where
  "walk 0 reg stop cur = (if cur = stop then Some [] else None)"
| "walk (Suc n) reg stop cur =
     (if cur = stop then Some []
      else case cur of
        None \<Rightarrow> None
      | Some r \<Rightarrow>
         (case lookup reg r of
            None \<Rightarrow> None
          | Some s \<Rightarrow> map_option ((#) s) (walk n reg stop (down_revision s))))"

text \<open>Modelled from the spec: \<open>resolvePath(fromRevision, toRevision)\<close> "walks the
  linked predecessor relation; if toRevision is a descendant of fromRevision, returns
  steps in ascending (upgrade) order; if an ancestor, returns steps in descending
  (downgrade) order; fails with NoPath if the two revisions are not on the same
  chain". The walk is given as many steps as the registry has. The result carries
  the direction, which \<open>migrate\<close> needs.\<close>

definition resolvePath ::
  "migration list \<Rightarrow> string option \<Rightarrow> string option \<Rightarrow> error + (direction \<times> migration list)" where
  "resolvePath reg from to =
     (case walk (length reg) reg from to of
        Some p \<Rightarrow> Inr (Ascending, rev p)
      | None \<Rightarrow>
         (case walk (length reg) reg to from of
            Some p \<Rightarrow> Inr (Descending, p)
          | None \<Rightarrow> Inl (NoPath from to)))"

text \<open>Modelled from the spec: the loop of \<open>apply\<close> and \<open>revert\<close>. The edits of one
  step run in sequence; the first failure aborts the rest of the step. The state
  reached so far is returned with the failure: nothing is undone.\<close>

fun run_edits :: "(schema_edit \<Rightarrow> 'db \<Rightarrow> cause + 'db) \<Rightarrow> schema_edit list \<Rightarrow> 'db \<Rightarrow> cause option \<times> 'db" where
  "run_edits ex [] d = (None, d)"
| "run_edits ex (e # es) d =
     (case ex e d of Inl c \<Rightarrow> (Some c, d) | Inr d' \<Rightarrow> run_edits ex es d')"

text \<open>Modelled from the spec: \<open>apply(step)\<close> "executes each SchemaEdit in
  step.upgrade in sequence against the target schema; on any edit failure, aborts
  remaining edits in the step and fails with ApplyFailed(revision, underlying cause);
  successful completion updates ChainState to step.revision".\<close>

definition apply_step ::
  "(schema_edit \<Rightarrow> 'db \<Rightarrow> cause + 'db) \<Rightarrow> migration \<Rightarrow> 'db world \<Rightarrow> error option \<times> 'db world" where
  "apply_step ex step w =
     (case run_edits ex (upgrade step) (db w) of
        (None, d) \<Rightarrow> (None, \<lparr> db = d, chain_state = Some (revision step) \<rparr>)
      | (Some c, d) \<Rightarrow> (Some (ApplyFailed (revision step) c), w\<lparr>db := d\<rparr>))"

text \<open>Modelled from the spec: \<open>revert(step)\<close> "executes each SchemaEdit in
  step.downgrade", with "same failure semantics as apply, producing RevertFailed".
  The edits run in the order of the \<open>downgrade\<close> sequence, which is the order in
  which the script's \<open>downgrade()\<close> makes its calls; the data model calls that
  sequence "the inverse ordered sequence" of the upgrade. A completed revert leaves
  ChainState at the step's predecessor, so that a migration down to R1 ends at R1.\<close>

definition revert_step ::
  "(schema_edit \<Rightarrow> 'db \<Rightarrow> cause + 'db) \<Rightarrow> migration \<Rightarrow> 'db world \<Rightarrow> error option \<times> 'db world" where
  "revert_step ex step w =
     (case run_edits ex (downgrade step) (db w) of
        (None, d) \<Rightarrow> (None, \<lparr> db = d, chain_state = down_revision step \<rparr>)
      | (Some c, d) \<Rightarrow> (Some (RevertFailed (revision step) c), w\<lparr>db := d\<rparr>))"

text \<open>Modelled from the spec: the loop of \<open>migrate\<close>. The steps of a path are applied
  (ascending) or reverted (descending) in order; the first failure ends the run, and
  the state it left is returned.\<close>

fun run_step ::
  "(schema_edit \<Rightarrow> 'db \<Rightarrow> cause + 'db) \<Rightarrow> direction \<Rightarrow> migration \<Rightarrow> 'db world \<Rightarrow> error option \<times> 'db world" where
  "run_step ex Ascending step w = apply_step ex step w"
| "run_step ex Descending step w = revert_step ex step w"

fun run_path ::
  "(schema_edit \<Rightarrow> 'db \<Rightarrow> cause + 'db) \<Rightarrow> direction \<Rightarrow> migration list \<Rightarrow> 'db world \<Rightarrow> error option \<times> 'db world" where
  "run_path ex dir [] w = (None, w)"
| "run_path ex dir (s # ss) w =
     (case run_step ex dir s w of
        (None, w') \<Rightarrow> run_path ex dir ss w'
      | (Some e, w') \<Rightarrow> (Some e, w'))"

text \<open>Modelled from the spec: \<open>migrate(fromRevision, toRevision)\<close> "calls resolvePath
  then applies/reverts each step in order, stopping at the first failure and leaving
  ChainState at the last successfully completed step".\<close>

definition migrate ::
  "(schema_edit \<Rightarrow> 'db \<Rightarrow> cause + 'db) \<Rightarrow> migration list \<Rightarrow> string option \<Rightarrow> string option \<Rightarrow> 'db world \<Rightarrow> error option \<times> 'db world" where
  "migrate ex reg from to w =
     (case resolvePath reg from to of
        Inl e \<Rightarrow> (Some e, w)
      | Inr (dir, path) \<Rightarrow> run_path ex dir path w)"

text \<open>The edits a step runs in a direction, and the error \<open>migrate\<close> reports when
  one of them fails.\<close>

definition edits_of :: "direction \<Rightarrow> migration \<Rightarrow> schema_edit list" where
  "edits_of dir s = (case dir of Ascending \<Rightarrow> upgrade s | Descending \<Rightarrow> downgrade s)"

definition step_failed :: "direction \<Rightarrow> string \<Rightarrow> cause \<Rightarrow> error" where
  "step_failed dir r c = (case dir of Ascending \<Rightarrow> ApplyFailed r c | Descending \<Rightarrow> RevertFailed r c)"

text \<open>An executor that never fails and records the operations it is given, in the
  order it is given them.\<close>

definition record_edit :: "schema_edit \<Rightarrow> schema_edit list \<Rightarrow> cause + schema_edit list" where
  "record_edit e log = Inr (log @ [e])"

subsection \<open>The scenario chain\<close>

text \<open>The chain of the specification's scenario: a root step R1 without predecessor,
  R2 adding \<open>content\<close> on top of R1, R3 adding \<open>owner_id\<close> and the foreign key on top
  of R2. R2 is the script \<open>134d9a43f339\<close> as it is, whose \<open>down_revision\<close> names the
  root; R3 is the script \<open>2b864134392f\<close> with its \<open>down_revision\<close> set to R2. The
  root's script is not among the three files, so its edits are parameters.\<close>

definition scenario_R1 :: "schema_edit list \<Rightarrow> schema_edit list \<Rightarrow> migration" where
  "scenario_R1 up down =
     \<lparr> revision = ''fa8d6eac1730'', down_revision = None, branch_labels = None,
       depends_on = None, upgrade = up, downgrade = down \<rparr>"

definition scenario_R2 :: migration where
  "scenario_R2 = step_134d9a43f339"

definition scenario_R3 :: migration where
  "scenario_R3 = step_2b864134392f\<lparr>down_revision := Some ''134d9a43f339''\<rparr>"

definition scenario_chain :: "schema_edit list \<Rightarrow> schema_edit list \<Rightarrow> migration list" where
  "scenario_chain up down = [scenario_R1 up down, scenario_R2, scenario_R3]"

text \<open>Whether a list of steps is linked newest first from \<open>cur\<close> down to \<open>stop\<close>:
  \<open>cur\<close> is the first step's revision, each step's \<open>down_revision\<close> is the next
  step's revision, and the last step's \<open>down_revision\<close> is \<open>stop\<close>.\<close>

fun linked :: "string option \<Rightarrow> migration list \<Rightarrow> string option \<Rightarrow> bool" where
  "linked cur [] stop = (cur = stop)"
| "linked cur (s # p) stop = (cur = Some (revision s) \<and> linked (down_revision s) p stop)"

text \<open>What registration maintains: revision ids are distinct, every
  \<open>down_revision\<close> that is not \<open>None\<close> names a registered revision, the predecessor
  relation has no cycle, and every step's chain of predecessors ends below a root.\<close>

definition closed_links :: "migration list \<Rightarrow> bool" where
  "closed_links reg =
     list_all (\<lambda>s. case down_revision s of None \<Rightarrow> True | Some d \<Rightarrow> d \<in> set (revisions reg)) reg"

definition chain_inv :: "migration list \<Rightarrow> bool" where
  "chain_inv reg \<longleftrightarrow>
     distinct (revisions reg) \<and> closed_links reg \<and> acyclic (pred_rel reg) \<and>
     list_all (\<lambda>s. (Some (revision s), None) \<in> (pred_rel reg)\<^sup>*) reg"

text \<open>Every step's predecessor is registered before the step.\<close>

definition links_back :: "migration list \<Rightarrow> bool" where
  "links_back reg \<longleftrightarrow>
     (\<forall>i < length reg. case down_revision (reg ! i) of
         None \<Rightarrow> True
       | Some d \<Rightarrow> d \<in> set (revisions (take i reg)))"

subsection \<open>Schemas to run the scripts on\<close>

text \<open>The scripts alter a table \<open>posts\<close> and reference the column \<open>id\<close> of a table
  \<open>users\<close>; the scripts that create the two tables are not among the three files.
  \<open>blog_schema\<close> has both tables with their \<open>id\<close> columns; \<open>posts_only\<close> lacks the
  table \<open>users\<close>, so that creating the foreign key fails on it.\<close>

definition id_column :: column where
  "id_column =
     \<lparr> col_name = ''id'', col_type = sa_Integer, nullable = False, server_default = None \<rparr>"

definition blog_schema :: schema where
  "blog_schema =
     \<lparr> tables = [''posts'', ''users''],
       columns = [(''posts'', id_column), (''users'', id_column)],
       foreign_keys = [] \<rparr>"

definition posts_only :: schema where
  "posts_only =
     \<lparr> tables = [''posts''], columns = [(''posts'', id_column)], foreign_keys = [] \<rparr>"

section \<open>What the scripts declare\<close>

text \<open>
  C2 (as stated): for every step, the last column added by the step's upgrade is the
  first column dropped by its downgrade. The script \<open>5b5d2975fa05\<close> refutes this: its
  upgrade adds \<open>published\<close> and then \<open>created_at\<close>, and its downgrade drops
  \<open>published\<close> first.
\<close>

theorem last_added_not_first_dropped_5b5d2975fa05:
  "last_of (added_columns (upgrade step_5b5d2975fa05)) = Some (''posts'', ''created_at'') \<and>
   first_of (dropped_columns (downgrade step_5b5d2975fa05)) = Some (''posts'', ''published'') \<and>
   last_of (added_columns (upgrade step_5b5d2975fa05)) \<noteq>
     first_of (dropped_columns (downgrade step_5b5d2975fa05))"
  by (simp add: step_5b5d2975fa05_def last_of_def)

text \<open>
  C2 (amended): in each of the three scripts, \<open>downgrade()\<close> drops exactly the columns
  that \<open>upgrade()\<close> adds, and in the same order: the first column added is the first
  column dropped. In \<open>5b5d2975fa05\<close> these are \<open>published\<close>, then \<open>created_at\<close>. In
  \<open>134d9a43f339\<close> and \<open>2b864134392f\<close>, which add a single column, the first column
  dropped is also the last column added.
\<close>

theorem downgrade_drops_in_upgrade_order:
  "dropped_columns (downgrade step_134d9a43f339) = added_columns (upgrade step_134d9a43f339) \<and>
   dropped_columns (downgrade step_2b864134392f) = added_columns (upgrade step_2b864134392f) \<and>
   dropped_columns (downgrade step_5b5d2975fa05) = added_columns (upgrade step_5b5d2975fa05) \<and>
   dropped_columns (downgrade step_5b5d2975fa05) =
     [(''posts'', ''published''), (''posts'', ''created_at'')] \<and>
   first_of (dropped_columns (downgrade step_134d9a43f339)) =
     last_of (added_columns (upgrade step_134d9a43f339)) \<and>
   first_of (dropped_columns (downgrade step_2b864134392f)) =
     last_of (added_columns (upgrade step_2b864134392f))"
  by (simp add: step_5b5d2975fa05_def step_134d9a43f339_def step_2b864134392f_def last_of_def)

text \<open>
  C3 (as stated): no registered step's upgrade adds a non-nullable column without a
  default. The script \<open>134d9a43f339\<close> is one of the directory's steps, and its upgrade
  adds \<open>content\<close> with \<open>nullable=False\<close> and no \<open>server_default\<close>.
\<close>

theorem required_column_without_default_registered:
  "step_134d9a43f339 \<in> set versions \<and>
   list_ex required_without_default (upgrade step_134d9a43f339)"
  by (simp add: step_134d9a43f339_def versions_def)

text \<open>
  C3 (amended): the scripts are not validated when they are built. Two of the three
  steps add a non-nullable column without a default: \<open>134d9a43f339\<close> adds \<open>content\<close>
  and \<open>2b864134392f\<close> adds \<open>owner_id\<close>. Only \<open>5b5d2975fa05\<close> gives every column it
  adds a server default.
\<close>

theorem steps_adding_required_columns_without_default:
  "map (\<lambda>s. (revision s, added_columns (filter required_without_default (upgrade s)))) versions =
     [(''134d9a43f339'', [(''posts'', ''content'')]),
      (''2b864134392f'', [(''posts'', ''owner_id'')]),
      (''5b5d2975fa05'', [])]"
  by (simp add: step_5b5d2975fa05_def step_134d9a43f339_def step_2b864134392f_def versions_def)

section \<open>Running the scripts' operations\<close>

subsection \<open>Operations leave the other tables alone\<close>

lemma fks_of_other_table:
  "t \<noteq> t' \<Longrightarrow>
   filter (\<lambda>k. fk_table k = t) (filter (\<lambda>k. fk_name k = n \<longrightarrow> fk_table k \<noteq> t') ks) =
   filter (\<lambda>k. fk_table k = t) ks"
  by (induction ks) auto

lemma columns_of_other_table:
  "t \<noteq> t' \<Longrightarrow>
   filter (\<lambda>tc. fst tc = t) (filter (\<lambda>tc. fst tc = t' \<longrightarrow> col_name (snd tc) \<noteq> n) cs) =
   filter (\<lambda>tc. fst tc = t) cs"
  by (induction cs) auto

lemma exec_edit_other_table:
  "exec_edit e d = Inr d' \<Longrightarrow> t \<noteq> altered_table e \<Longrightarrow> table_schema d' t = table_schema d t"
  by (cases e)
    (auto simp: table_schema_def fks_of_other_table columns_of_other_table
       simp del: filter_filter split: if_splits option.splits)

lemma run_edits_other_table:
  "list_all (\<lambda>e. altered_table e \<noteq> t) es \<Longrightarrow>
   table_schema (snd (run_edits exec_edit es d)) t = table_schema d t"
proof (induction es arbitrary: d)
  case Nil
  then show ?case by simp
next
  case (Cons e es)
  show ?case
  proof (cases "exec_edit e d")
    case (Inl c)
    then show ?thesis by simp
  next
    case (Inr d')
    with Cons show ?thesis using exec_edit_other_table[OF Inr, of t] by auto
  qed
qed

lemma db_apply_step: "db (snd (apply_step ex s w)) = snd (run_edits ex (upgrade s) (db w))"
  by (simp add: apply_step_def split: prod.splits option.splits)

lemma db_revert_step: "db (snd (revert_step ex s w)) = snd (run_edits ex (downgrade s) (db w))"
  by (simp add: revert_step_def split: prod.splits option.splits)

lemma versions_alter_posts:
  "\<forall>s \<in> set versions. \<forall>e \<in> set (upgrade s @ downgrade s). altered_table e = ''posts''"
  by (simp add: versions_def step_134d9a43f339_def step_2b864134392f_def step_5b5d2975fa05_def)

text \<open>
  C9: every operation of every upgrade and downgrade of the three scripts alters the
  table \<open>posts\<close>. Hence, for every other table \<open>t\<close> (\<open>users\<close> among them, which the
  foreign key only references), applying or reverting any of the three steps leaves
  what the schema says about \<open>t\<close> unchanged, whether the step completes or fails.
\<close>

theorem only_posts_altered:
  "(\<forall>s \<in> set versions. \<forall>e \<in> set (upgrade s @ downgrade s). altered_table e = ''posts'') \<and>
   (s \<in> set versions \<and> t \<noteq> ''posts'' \<longrightarrow>
      table_schema (db (snd (apply_step exec_edit s w))) t = table_schema (db w) t \<and>
      table_schema (db (snd (revert_step exec_edit s w))) t = table_schema (db w) t)"
proof (intro conjI impI)
  show a: "\<forall>s \<in> set versions. \<forall>e \<in> set (upgrade s @ downgrade s). altered_table e = ''posts''"
    by (rule versions_alter_posts)
  assume h: "s \<in> set versions \<and> t \<noteq> ''posts''"
  with a have "list_all (\<lambda>e. altered_table e \<noteq> t) (upgrade s)"
    and "list_all (\<lambda>e. altered_table e \<noteq> t) (downgrade s)"
    by (auto simp: list_all_iff)
  then show "table_schema (db (snd (apply_step exec_edit s w))) t = table_schema (db w) t"
    and "table_schema (db (snd (revert_step exec_edit s w))) t = table_schema (db w) t"
    by (simp_all add: db_apply_step db_revert_step run_edits_other_table)
qed

theorem only_posts_altered_witness:
  "step_2b864134392f \<in> set versions \<and> ''users'' \<noteq> ''posts'' \<and>
   altered_table (create_foreign_key ''post_user_fk'' ''posts'' ''users'' [''owner_id''] [''id'']
      (Some ''CASCADE'')) = ''posts'' \<and>
   table_schema (db (snd (apply_step exec_edit step_2b864134392f
      \<lparr>db = blog_schema, chain_state = Some ''edafe56964a0''\<rparr>))) ''users'' =
     (True, [id_column], []) \<and>
   table_schema (db (snd (revert_step exec_edit step_2b864134392f
      \<lparr>db = blog_schema, chain_state = Some ''2b864134392f''\<rparr>))) ''users'' =
     (True, [id_column], [])"
proof -
  have h: "step_2b864134392f \<in> set versions \<and> ''users'' \<noteq> ''posts''"
    by (simp add: versions_def)
  have b: "table_schema blog_schema ''users'' = (True, [id_column], [])"
    by (simp add: table_schema_def blog_schema_def)
  from only_posts_altered[of step_2b864134392f "''users''"
      "\<lparr>db = blog_schema, chain_state = Some ''edafe56964a0''\<rparr>"]
    only_posts_altered[of step_2b864134392f "''users''"
      "\<lparr>db = blog_schema, chain_state = Some ''2b864134392f''\<rparr>"] h b
  show ?thesis by simp
qed

subsection \<open>Adding columns and dropping them again\<close>

lemma drop_absent_column:
  "(t, n) \<notin> set (map (\<lambda>tc. (fst tc, col_name (snd tc))) cs) \<Longrightarrow>
   filter (\<lambda>tc. \<not> (fst tc = t \<and> col_name (snd tc) = n)) cs = cs"
  by (induction cs) auto

lemma add_drop_column:
  assumes "exec_edit (add_column t c) d = Inr d'"
  shows "exec_edit (drop_column t (col_name c)) d' = Inr d"
proof -
  from assms have t: "t \<in> set (tables d)" and nc: "\<not> has_column d t (col_name c)"
    and d': "d' = d\<lparr>columns := columns d @ [(t, c)]\<rparr>"
    by (auto split: if_splits)
  have f: "filter (\<lambda>tc. \<not> (fst tc = t \<and> col_name (snd tc) = col_name c)) (columns d) = columns d"
    using nc by (intro drop_absent_column) (simp add: has_column_def column_names_def)
  have "has_column d' t (col_name c)"
    by (simp add: d' has_column_def column_names_def)
  then show ?thesis using t f by (simp add: d')
qed

lemma add_add_drop_drop:
  assumes 1: "exec_edit (add_column t c1) d = Inr d1"
      and 2: "exec_edit (add_column t c2) d1 = Inr d2"
  shows "\<exists>d3. exec_edit (drop_column t (col_name c1)) d2 = Inr d3 \<and>
              exec_edit (drop_column t (col_name c2)) d3 = Inr d"
proof -
  from 1 have t: "t \<in> set (tables d)" and n1: "\<not> has_column d t (col_name c1)"
    and d1: "d1 = d\<lparr>columns := columns d @ [(t, c1)]\<rparr>"
    by (auto split: if_splits)
  from 2 have n2: "\<not> has_column d1 t (col_name c2)"
    and d2: "d2 = d1\<lparr>columns := columns d1 @ [(t, c2)]\<rparr>"
    by (auto split: if_splits)
  from n2 have ne: "col_name c2 \<noteq> col_name c1" and n2': "\<not> has_column d t (col_name c2)"
    by (auto simp: d1 has_column_def column_names_def)
  let ?d3 = "d\<lparr>columns := columns d @ [(t, c2)]\<rparr>"
  have f: "filter (\<lambda>tc. \<not> (fst tc = t \<and> col_name (snd tc) = col_name c1)) (columns d) = columns d"
    using n1 by (intro drop_absent_column) (simp add: has_column_def column_names_def)
  have "has_column d2 t (col_name c1)"
    by (simp add: d1 d2 has_column_def column_names_def)
  then have a: "exec_edit (drop_column t (col_name c1)) d2 = Inr ?d3"
    using t f ne by (simp add: d1 d2)
  have "exec_edit (add_column t c2) d = Inr ?d3"
    using t n2' by simp
  then have "exec_edit (drop_column t (col_name c2)) ?d3 = Inr d"
    by (rule add_drop_column)
  with a show ?thesis by blast
qed

text \<open>A completed apply of \<open>134d9a43f339\<close> or of \<open>5b5d2975fa05\<close>, followed by the
  revert of the same step, gives the schema back as it was.\<close>

lemma roundtrip_134d9a43f339:
  assumes "apply_step exec_edit step_134d9a43f339 w = (None, w')"
  shows "\<exists>w''. revert_step exec_edit step_134d9a43f339 w' = (None, w'') \<and> db w'' = db w"
proof -
  let ?c = "\<lparr> col_name = ''content'', col_type = sa_String, nullable = False,
             server_default = None \<rparr>"
  from assms obtain d1 where 1: "exec_edit (add_column ''posts'' ?c) (db w) = Inr d1"
    and w': "db w' = d1"
    by (auto simp: apply_step_def step_134d9a43f339_def split: sum.splits)
  from add_drop_column[OF 1] have "exec_edit (drop_column ''posts'' ''content'') d1 = Inr (db w)"
    by simp
  then show ?thesis by (simp add: revert_step_def step_134d9a43f339_def w')
qed

lemma roundtrip_5b5d2975fa05:
  assumes "apply_step exec_edit step_5b5d2975fa05 w = (None, w')"
  shows "\<exists>w''. revert_step exec_edit step_5b5d2975fa05 w' = (None, w'') \<and> db w'' = db w"
proof -
  let ?c1 = "\<lparr> col_name = ''published'', col_type = sa_Boolean, nullable = False,
              server_default = Some (plain_default ''TRUE'') \<rparr>"
  let ?c2 = "\<lparr> col_name = ''created_at'', col_type = sa_TIMESTAMP True, nullable = False,
              server_default = Some (sa_text ''NOW()'') \<rparr>"
  from assms obtain d1 d2 where 1: "exec_edit (add_column ''posts'' ?c1) (db w) = Inr d1"
    and 2: "exec_edit (add_column ''posts'' ?c2) d1 = Inr d2" and w': "db w' = d2"
    by (auto simp: apply_step_def step_5b5d2975fa05_def split: sum.splits)
  from add_add_drop_drop[OF 1 2] obtain d3 where
    "exec_edit (drop_column ''posts'' ''published'') d2 = Inr d3"
    "exec_edit (drop_column ''posts'' ''created_at'') d3 = Inr (db w)"
    by auto
  then show ?thesis by (simp add: revert_step_def step_5b5d2975fa05_def w')
qed

text \<open>
  C8: for the steps \<open>134d9a43f339\<close> and \<open>5b5d2975fa05\<close>, the set of
  \<open>(table, column)\<close> pairs the downgrade drops equals the set the upgrade adds. So,
  when applying either step completes, reverting it completes too and leaves the
  schema with the column set it had before the apply.
\<close>

theorem apply_then_revert_keeps_columns:
  "set (dropped_columns (downgrade step_134d9a43f339)) =
     set (added_columns (upgrade step_134d9a43f339)) \<and>
   set (dropped_columns (downgrade step_5b5d2975fa05)) =
     set (added_columns (upgrade step_5b5d2975fa05)) \<and>
   ((s = step_134d9a43f339 \<or> s = step_5b5d2975fa05) \<and>
    apply_step exec_edit s w = (None, w') \<longrightarrow>
      (\<exists>w''. revert_step exec_edit s w' = (None, w'') \<and>
             set (column_names (db w'')) = set (column_names (db w))))"
proof (intro conjI impI)
  show "set (dropped_columns (downgrade step_134d9a43f339)) =
      set (added_columns (upgrade step_134d9a43f339))"
    by (simp add: step_134d9a43f339_def)
  show "set (dropped_columns (downgrade step_5b5d2975fa05)) =
      set (added_columns (upgrade step_5b5d2975fa05))"
    by (simp add: step_5b5d2975fa05_def)
  assume "(s = step_134d9a43f339 \<or> s = step_5b5d2975fa05) \<and>
    apply_step exec_edit s w = (None, w')"
  then have "\<exists>w''. revert_step exec_edit s w' = (None, w'') \<and> db w'' = db w"
    using roundtrip_134d9a43f339 roundtrip_5b5d2975fa05 by blast
  then show "\<exists>w''. revert_step exec_edit s w' = (None, w'') \<and>
      set (column_names (db w'')) = set (column_names (db w))"
    by auto
qed

text \<open>The witness applies \<open>5b5d2975fa05\<close> to \<open>blog_schema\<close>.\<close>

theorem apply_then_revert_keeps_columns_witness:
  "apply_step exec_edit step_5b5d2975fa05 \<lparr>db = blog_schema, chain_state = Some ''2b864134392f''\<rparr> =
     (None,
      \<lparr>db = blog_schema\<lparr>columns := columns blog_schema @ map (Pair ''posts'')
          [\<lparr> col_name = ''published'', col_type = sa_Boolean, nullable = False,
              server_default = Some (plain_default ''TRUE'') \<rparr>,
           \<lparr> col_name = ''created_at'', col_type = sa_TIMESTAMP True, nullable = False,
              server_default = Some (sa_text ''NOW()'') \<rparr>]\<rparr>,
       chain_state = Some ''5b5d2975fa05''\<rparr>) \<and>
   (\<exists>w''. revert_step exec_edit step_5b5d2975fa05
        \<lparr>db = blog_schema\<lparr>columns := columns blog_schema @ map (Pair ''posts'')
          [\<lparr> col_name = ''published'', col_type = sa_Boolean, nullable = False,
              server_default = Some (plain_default ''TRUE'') \<rparr>,
           \<lparr> col_name = ''created_at'', col_type = sa_TIMESTAMP True, nullable = False,
              server_default = Some (sa_text ''NOW()'') \<rparr>]\<rparr>,
         chain_state = Some ''5b5d2975fa05''\<rparr> = (None, w'') \<and>
      set (column_names (db w'')) = {(''posts'', ''id''), (''users'', ''id'')})"
proof -
  let ?w = "\<lparr>db = blog_schema, chain_state = Some ''2b864134392f''\<rparr>"
  let ?w' = "\<lparr>db = blog_schema\<lparr>columns := columns blog_schema @ map (Pair ''posts'')
          [\<lparr> col_name = ''published'', col_type = sa_Boolean, nullable = False,
              server_default = Some (plain_default ''TRUE'') \<rparr>,
           \<lparr> col_name = ''created_at'', col_type = sa_TIMESTAMP True, nullable = False,
              server_default = Some (sa_text ''NOW()'') \<rparr>]\<rparr>,
       chain_state = Some ''5b5d2975fa05''\<rparr>"
  have a: "apply_step exec_edit step_5b5d2975fa05 ?w = (None, ?w')"
    by (simp add: apply_step_def step_5b5d2975fa05_def blog_schema_def id_column_def
          has_column_def column_names_def)
  have c: "set (column_names (db ?w)) = {(''posts'', ''id''), (''users'', ''id'')}"
    by (simp add: column_names_def blog_schema_def id_column_def)
  from apply_then_revert_keeps_columns[of step_5b5d2975fa05 ?w ?w'] a c
  show ?thesis by simp
qed

subsection \<open>The foreign key of \<open>2b864134392f\<close>\<close>

text \<open>
  C10: in the upgrade of \<open>2b864134392f\<close>, the \<open>add_column\<close> of \<open>owner_id\<close> comes
  before the \<open>create_foreign_key\<close> whose local column is \<open>owner_id\<close>. So the schema
  on which the foreign key is created has the column \<open>posts.owner_id\<close>, creating the
  key does not fail for want of it, and no run of the upgrade ends with that failure.
\<close>

theorem owner_id_exists_before_foreign_key:
  "upgrade step_2b864134392f =
     [add_column ''posts''
        \<lparr> col_name = ''owner_id'', col_type = sa_Integer, nullable = False,
          server_default = None \<rparr>,
      create_foreign_key ''post_user_fk'' ''posts'' ''users'' [''owner_id''] [''id'']
        (Some ''CASCADE'')] \<and>
   (upgrade step_2b864134392f = [e1, e2] \<and> exec_edit e1 d = Inr d' \<longrightarrow>
      has_column d' ''posts'' ''owner_id'' \<and>
      find (\<lambda>c. \<not> has_column d' ''posts'' c) [''owner_id''] = None \<and>
      exec_edit e2 d' \<noteq> Inl (NoSuchColumn ''posts'' ''owner_id'')) \<and>
   fst (run_edits exec_edit (upgrade step_2b864134392f) d) \<noteq>
     Some (NoSuchColumn ''posts'' ''owner_id'')"
  by (auto simp: step_2b864134392f_def has_column_def column_names_def
        split: if_splits option.splits sum.splits)

theorem owner_id_exists_before_foreign_key_witness:
  "exec_edit (add_column ''posts''
        \<lparr> col_name = ''owner_id'', col_type = sa_Integer, nullable = False,
          server_default = None \<rparr>) blog_schema =
     Inr (blog_schema\<lparr>columns := columns blog_schema @
        [(''posts'', \<lparr> col_name = ''owner_id'', col_type = sa_Integer, nullable = False,
          server_default = None \<rparr>)]\<rparr>) \<and>
   has_column (blog_schema\<lparr>columns := columns blog_schema @
        [(''posts'', \<lparr> col_name = ''owner_id'', col_type = sa_Integer, nullable = False,
          server_default = None \<rparr>)]\<rparr>) ''posts'' ''owner_id'' \<and>
   fst (run_edits exec_edit (upgrade step_2b864134392f) blog_schema) = None"
proof -
  let ?e1 = "add_column ''posts''
        \<lparr> col_name = ''owner_id'', col_type = sa_Integer, nullable = False,
          server_default = None \<rparr>"
  let ?e2 = "create_foreign_key ''post_user_fk'' ''posts'' ''users'' [''owner_id''] [''id'']
        (Some ''CASCADE'')"
  let ?d' = "blog_schema\<lparr>columns := columns blog_schema @
        [(''posts'', \<lparr> col_name = ''owner_id'', col_type = sa_Integer, nullable = False,
          server_default = None \<rparr>)]\<rparr>"
  have u: "upgrade step_2b864134392f = [?e1, ?e2]"
    by (simp add: step_2b864134392f_def)
  have e: "exec_edit ?e1 blog_schema = Inr ?d'"
    by (simp add: blog_schema_def id_column_def has_column_def column_names_def)
  have r: "fst (run_edits exec_edit (upgrade step_2b864134392f) blog_schema) = None"
    by (simp add: step_2b864134392f_def blog_schema_def id_column_def has_column_def
          has_constraint_def column_names_def)
  from owner_id_exists_before_foreign_key[of ?e1 ?e2 blog_schema ?d'] u e r
  show ?thesis by simp
qed

subsection \<open>The constraint that \<open>2b864134392f\<close> drops\<close>

text \<open>
  C1 (the code at the failing input): the upgrade of \<open>2b864134392f\<close> creates the
  constraint \<open>post_user_fk\<close>, and its downgrade drops a constraint named
  \<open>post_users_fk\<close>; the downgrade is not the inverse of the upgrade. On the schema
  \<open>blog_schema\<close> the apply completes, and the revert that follows fails at its first
  operation, for want of a constraint of that name: the column \<open>owner_id\<close> and the
  foreign key stay, and the schema is not the one before the apply.
\<close>

theorem downgrade_2b864134392f_drops_other_constraint:
  "created_constraints (upgrade step_2b864134392f) = [(''post_user_fk'', ''posts'')] \<and>
   dropped_constraints (downgrade step_2b864134392f) = [(''post_users_fk'', ''posts'')] \<and>
   map Some (downgrade step_2b864134392f) \<noteq> inverse_sequence (upgrade step_2b864134392f) \<and>
   apply_step exec_edit step_2b864134392f
       \<lparr>db = blog_schema, chain_state = Some ''edafe56964a0''\<rparr> =
     (None,
      \<lparr>db = blog_schema
         \<lparr>columns := columns blog_schema @
            [(''posts'', \<lparr> col_name = ''owner_id'', col_type = sa_Integer, nullable = False,
                server_default = None \<rparr>)],
          foreign_keys :=
            [\<lparr> fk_name = ''post_user_fk'', fk_table = ''posts'', fk_referent = ''users'',
               fk_local_cols = [''owner_id''], fk_remote_cols = [''id''],
               fk_ondelete = Some ''CASCADE'' \<rparr>]\<rparr>,
       chain_state = Some ''2b864134392f''\<rparr>) \<and>
   revert_step exec_edit step_2b864134392f
       \<lparr>db = blog_schema
         \<lparr>columns := columns blog_schema @
            [(''posts'', \<lparr> col_name = ''owner_id'', col_type = sa_Integer, nullable = False,
                server_default = None \<rparr>)],
          foreign_keys :=
            [\<lparr> fk_name = ''post_user_fk'', fk_table = ''posts'', fk_referent = ''users'',
               fk_local_cols = [''owner_id''], fk_remote_cols = [''id''],
               fk_ondelete = Some ''CASCADE'' \<rparr>]\<rparr>,
       chain_state = Some ''2b864134392f''\<rparr> =
     (Some (RevertFailed ''2b864134392f'' (NoSuchConstraint ''post_users_fk'' ''posts'')),
      \<lparr>db = blog_schema
         \<lparr>columns := columns blog_schema @
            [(''posts'', \<lparr> col_name = ''owner_id'', col_type = sa_Integer, nullable = False,
                server_default = None \<rparr>)],
          foreign_keys :=
            [\<lparr> fk_name = ''post_user_fk'', fk_table = ''posts'', fk_referent = ''users'',
               fk_local_cols = [''owner_id''], fk_remote_cols = [''id''],
               fk_ondelete = Some ''CASCADE'' \<rparr>]\<rparr>,
       chain_state = Some ''2b864134392f''\<rparr>)"
  by (simp add: step_2b864134392f_def inverse_sequence_def apply_step_def revert_step_def
        blog_schema_def id_column_def has_column_def has_constraint_def column_names_def)

section \<open>The chain\<close>

subsection \<open>Walking the predecessor relation\<close>

lemma lookup_SomeD: "lookup reg r = Some s \<Longrightarrow> s \<in> set reg \<and> revision s = r"
  by (auto simp: lookup_def find_Some_iff)

lemma lookup_pred_rel: "lookup reg r = Some s \<Longrightarrow> (Some r, down_revision s) \<in> pred_rel reg"
  by (auto simp: pred_rel_def dest!: lookup_SomeD)

text \<open>A walk that arrives has followed the predecessor relation.\<close>

lemma walk_sound: "walk n reg stop cur = Some p \<Longrightarrow> (cur, stop) \<in> (pred_rel reg)\<^sup>*"
proof (induction n arbitrary: cur p)
  case 0
  then show ?case by (simp split: if_splits)
next
  case (Suc n)
  show ?case
  proof (cases "cur = stop")
    case True
    then show ?thesis by simp
  next
    case False
    with Suc.prems obtain r s q where cur: "cur = Some r" and l: "lookup reg r = Some s"
      and w: "walk n reg stop (down_revision s) = Some q"
      by (auto split: option.splits)
    from Suc.IH[OF w] lookup_pred_rel[OF l] show ?thesis
      unfolding cur by (rule converse_rtrancl_into_rtrancl[rotated])
  qed
qed

lemma no_walk: "(cur, stop) \<notin> (pred_rel reg)\<^sup>* \<Longrightarrow> walk n reg stop cur = None"
  using walk_sound by (cases "walk n reg stop cur") auto

lemma resolvePath_unconnected:
  "(a, b) \<notin> (pred_rel reg)\<^sup>* \<Longrightarrow> (b, a) \<notin> (pred_rel reg)\<^sup>* \<Longrightarrow>
   resolvePath reg a b = Inl (NoPath a b)"
  by (simp add: resolvePath_def no_walk)

text \<open>From a step whose predecessor is not registered, the relation reaches the step
  itself and that predecessor, and nothing else.\<close>

lemma dangling_reach:
  assumes s: "s \<in> set reg" and dist: "distinct (revisions reg)"
    and d: "down_revision s = Some d" and un: "d \<notin> set (revisions reg)"
    and reach: "(Some (revision s), x) \<in> (pred_rel reg)\<^sup>*"
  shows "x = Some (revision s) \<or> x = Some d"
proof -
  have out_d: "\<And>y. (Some d, y) \<notin> pred_rel reg"
    using un by (auto simp: pred_rel_def revisions_def)
  have out_s: "\<And>y. (Some (revision s), y) \<in> pred_rel reg \<Longrightarrow> y = Some d"
  proof -
    fix y
    assume "(Some (revision s), y) \<in> pred_rel reg"
    then obtain s' where s': "s' \<in> set reg" "revision s' = revision s" "y = down_revision s'"
      by (auto simp: pred_rel_def)
    from dist s s'(1,2) have "s' = s"
      unfolding revisions_def by (meson distinct_map inj_onD)
    with s'(3) d show "y = Some d" by simp
  qed
  from reach show ?thesis
  proof (cases rule: converse_rtranclE)
    case base
    then show ?thesis by simp
  next
    case (step y)
    then have y: "y = Some d" using out_s by blast
    from step(2) show ?thesis unfolding y
      by (cases rule: converse_rtranclE) (auto simp: out_d)
  qed
qed

lemma dangling_apart:
  assumes "distinct (revisions reg)" "s1 \<in> set reg" "s2 \<in> set reg"
    and "revision s1 \<noteq> revision s2"
    and "down_revision s1 = Some d1" "d1 \<notin> set (revisions reg)"
  shows "(Some (revision s1), Some (revision s2)) \<notin> (pred_rel reg)\<^sup>*"
proof -
  from assms(3) have "revision s2 \<in> set (revisions reg)" by (simp add: revisions_def)
  with dangling_reach[of s1 reg d1 "Some (revision s2)"] assms show ?thesis by auto
qed

text \<open>
  C7: when neither of two revisions is reached from the other along the predecessor
  relation, \<open>resolvePath\<close> between them fails with \<open>NoPath\<close>. In particular this is so
  for two registered steps whose \<open>down_revision\<close> pointers lead to two different
  revisions that are not registered.
\<close>

theorem resolvePath_NoPath:
  "((a, b) \<notin> (pred_rel reg)\<^sup>* \<and> (b, a) \<notin> (pred_rel reg)\<^sup>* \<longrightarrow>
      resolvePath reg a b = Inl (NoPath a b)) \<and>
   (distinct (revisions reg) \<and> s1 \<in> set reg \<and> s2 \<in> set reg \<and>
    revision s1 \<noteq> revision s2 \<and>
    down_revision s1 = Some d1 \<and> d1 \<notin> set (revisions reg) \<and>
    down_revision s2 = Some d2 \<and> d2 \<notin> set (revisions reg) \<and> d1 \<noteq> d2 \<longrightarrow>
      resolvePath reg (Some (revision s1)) (Some (revision s2)) =
        Inl (NoPath (Some (revision s1)) (Some (revision s2))))"
proof (intro conjI impI)
  assume "(a, b) \<notin> (pred_rel reg)\<^sup>* \<and> (b, a) \<notin> (pred_rel reg)\<^sup>*"
  then show "resolvePath reg a b = Inl (NoPath a b)"
    by (simp add: resolvePath_unconnected)
next
  assume h: "distinct (revisions reg) \<and> s1 \<in> set reg \<and> s2 \<in> set reg \<and>
    revision s1 \<noteq> revision s2 \<and>
    down_revision s1 = Some d1 \<and> d1 \<notin> set (revisions reg) \<and>
    down_revision s2 = Some d2 \<and> d2 \<notin> set (revisions reg) \<and> d1 \<noteq> d2"
  then have "(Some (revision s1), Some (revision s2)) \<notin> (pred_rel reg)\<^sup>*"
    by (intro dangling_apart[of reg s1 s2 d1]) simp_all
  moreover from h have "(Some (revision s2), Some (revision s1)) \<notin> (pred_rel reg)\<^sup>*"
    by (intro dangling_apart[of reg s2 s1 d2]) auto
  ultimately show "resolvePath reg (Some (revision s1)) (Some (revision s2)) =
      Inl (NoPath (Some (revision s1)) (Some (revision s2)))"
    by (rule resolvePath_unconnected)
qed

text \<open>The witness takes the three scripts as the registry: \<open>134d9a43f339\<close> points to
  \<open>fa8d6eac1730\<close> and \<open>2b864134392f\<close> to \<open>edafe56964a0\<close>, and neither of these is among
  the three.\<close>

lemma versions_facts:
  "distinct (revisions versions)"
  "step_134d9a43f339 \<in> set versions"
  "step_2b864134392f \<in> set versions"
  "revisions versions = [''134d9a43f339'', ''2b864134392f'', ''5b5d2975fa05'']"
  "revision step_134d9a43f339 = ''134d9a43f339''"
  "revision step_2b864134392f = ''2b864134392f''"
  "down_revision step_134d9a43f339 = Some ''fa8d6eac1730''"
  "down_revision step_2b864134392f = Some ''edafe56964a0''"
  by (simp_all add: versions_def revisions_def step_134d9a43f339_def step_2b864134392f_def
        step_5b5d2975fa05_def)

theorem resolvePath_NoPath_witness:
  "distinct (revisions versions) \<and>
   step_134d9a43f339 \<in> set versions \<and> step_2b864134392f \<in> set versions \<and>
   revision step_134d9a43f339 \<noteq> revision step_2b864134392f \<and>
   down_revision step_134d9a43f339 = Some ''fa8d6eac1730'' \<and>
   ''fa8d6eac1730'' \<notin> set (revisions versions) \<and>
   down_revision step_2b864134392f = Some ''edafe56964a0'' \<and>
   ''edafe56964a0'' \<notin> set (revisions versions) \<and>
   (Some ''134d9a43f339'', Some ''2b864134392f'') \<notin> (pred_rel versions)\<^sup>* \<and>
   (Some ''2b864134392f'', Some ''134d9a43f339'') \<notin> (pred_rel versions)\<^sup>* \<and>
   resolvePath versions (Some ''134d9a43f339'') (Some ''2b864134392f'') =
     Inl (NoPath (Some ''134d9a43f339'') (Some ''2b864134392f''))"
proof -
  have h: "distinct (revisions versions) \<and>
     step_134d9a43f339 \<in> set versions \<and> step_2b864134392f \<in> set versions \<and>
     revision step_134d9a43f339 \<noteq> revision step_2b864134392f \<and>
     down_revision step_134d9a43f339 = Some ''fa8d6eac1730'' \<and>
     ''fa8d6eac1730'' \<notin> set (revisions versions) \<and>
     down_revision step_2b864134392f = Some ''edafe56964a0'' \<and>
     ''edafe56964a0'' \<notin> set (revisions versions) \<and>
     ''fa8d6eac1730'' \<noteq> ''edafe56964a0''"
    by (simp add: versions_facts)
  have n1: "(Some ''134d9a43f339'', Some ''2b864134392f'') \<notin> (pred_rel versions)\<^sup>*"
    using dangling_apart[of versions step_134d9a43f339 step_2b864134392f "''fa8d6eac1730''"]
    by (simp add: versions_facts)
  have n2: "(Some ''2b864134392f'', Some ''134d9a43f339'') \<notin> (pred_rel versions)\<^sup>*"
    using dangling_apart[of versions step_2b864134392f step_134d9a43f339 "''edafe56964a0''"]
    by (simp add: versions_facts)
  from resolvePath_NoPath[of "Some ''134d9a43f339''" "Some ''2b864134392f''" versions
      step_134d9a43f339 step_2b864134392f "''fa8d6eac1730''" "''edafe56964a0''"] n1 n2
  have "resolvePath versions (Some ''134d9a43f339'') (Some ''2b864134392f'') =
     Inl (NoPath (Some ''134d9a43f339'') (Some ''2b864134392f''))"
    by blast
  with h n1 n2 show ?thesis by simp
qed

subsection \<open>What registration maintains\<close>

lemma pred_rel_snoc:
  "pred_rel (reg @ [s]) = insert (Some (revision s), down_revision s) (pred_rel reg)"
  by (auto simp: pred_rel_def)

lemma revisions_snoc: "revisions (reg @ [s]) = revisions reg @ [revision s]"
  by (simp add: revisions_def)

lemma pred_rel_target:
  "closed_links reg \<Longrightarrow> (x, Some r) \<in> pred_rel reg \<Longrightarrow> r \<in> set (revisions reg)"
  by (auto simp: closed_links_def pred_rel_def list_all_iff split: option.splits)

lemma reach_fresh:
  assumes cl: "closed_links reg" and fresh: "r \<notin> set (revisions reg)"
    and reach: "(x, Some r) \<in> (pred_rel reg)\<^sup>*"
  shows "x = Some r"
  using reach
proof (cases rule: rtranclE)
  case base
  then show ?thesis by simp
next
  case (step y)
  with pred_rel_target[OF cl step(2)] fresh show ?thesis by simp
qed

lemma chain_inv_snoc:
  assumes inv: "chain_inv reg" and fresh: "revision s \<notin> set (revisions reg)"
    and link: "case down_revision s of None \<Rightarrow> True | Some d \<Rightarrow> d \<in> set (revisions reg)"
  shows "chain_inv (reg @ [s])"
proof -
  from inv have dist: "distinct (revisions reg)" and cl: "closed_links reg"
    and ac: "acyclic (pred_rel reg)"
    and rooted: "list_all (\<lambda>s. (Some (revision s), None) \<in> (pred_rel reg)\<^sup>*) reg"
    by (simp_all add: chain_inv_def)
  have sub: "(pred_rel reg)\<^sup>* \<subseteq> (pred_rel (reg @ [s]))\<^sup>*"
    by (rule rtrancl_mono) (auto simp: pred_rel_snoc)
  have 1: "distinct (revisions (reg @ [s]))"
    using dist fresh by (simp add: revisions_snoc)
  have 2: "closed_links (reg @ [s])"
    using cl link
    by (auto simp: closed_links_def revisions_snoc list_all_iff split: option.splits)
  have nb: "(down_revision s, Some (revision s)) \<notin> (pred_rel reg)\<^sup>*"
  proof
    assume "(down_revision s, Some (revision s)) \<in> (pred_rel reg)\<^sup>*"
    from reach_fresh[OF cl fresh this] have "down_revision s = Some (revision s)" .
    with link fresh show False by simp
  qed
  have 3: "acyclic (pred_rel (reg @ [s]))"
    using ac nb by (simp add: pred_rel_snoc acyclic_insert)
  have e: "(Some (revision s), down_revision s) \<in> pred_rel (reg @ [s])"
    by (simp add: pred_rel_snoc)
  have new: "(Some (revision s), None) \<in> (pred_rel (reg @ [s]))\<^sup>*"
  proof (cases "down_revision s")
    case None
    with e show ?thesis by auto
  next
    case (Some d)
    with link obtain s' where "s' \<in> set reg" "revision s' = d"
      by (auto simp: revisions_def)
    with rooted have "(Some d, None) \<in> (pred_rel reg)\<^sup>*"
      by (auto simp: list_all_iff)
    with sub have "(Some d, None) \<in> (pred_rel (reg @ [s]))\<^sup>*" by blast
    with e Some show ?thesis by (metis converse_rtrancl_into_rtrancl)
  qed
  have 4: "list_all (\<lambda>s'. (Some (revision s'), None) \<in> (pred_rel (reg @ [s]))\<^sup>*) (reg @ [s])"
    using rooted sub new by (auto simp: list_all_iff)
  from 1 2 3 4 show ?thesis by (simp add: chain_inv_def)
qed

lemma chain_inv_Nil: "chain_inv []"
  by (simp add: chain_inv_def revisions_def closed_links_def pred_rel_def acyclic_def)

lemma register_Inr:
  "register s reg = Inr reg' \<longleftrightarrow>
     reg' = reg @ [s] \<and> revision s \<notin> set (revisions reg) \<and>
     (case down_revision s of None \<Rightarrow> True | Some d \<Rightarrow> d \<in> set (revisions reg))"
  by (auto simp: register_def split: option.splits)

lemma register_inv: "chain_inv reg \<Longrightarrow> register s reg = Inr reg' \<Longrightarrow> chain_inv reg'"
  by (auto simp: register_Inr intro: chain_inv_snoc)

lemma register_all_inv:
  "chain_inv reg \<Longrightarrow> register_all steps reg = Inr reg' \<Longrightarrow> chain_inv reg'"
proof (induction steps arbitrary: reg)
  case Nil
  then show ?case by simp
next
  case (Cons s steps)
  then show ?case by (auto split: sum.splits dest: register_inv)
qed

lemma register_all_app: "register_all steps reg = Inr reg' \<Longrightarrow> reg' = reg @ steps"
proof (induction steps arbitrary: reg)
  case Nil
  then show ?case by simp
next
  case (Cons s steps)
  from Cons.prems obtain r where r: "register s reg = Inr r"
    and a: "register_all steps r = Inr reg'"
    by (auto split: sum.splits)
  from r have "r = reg @ [s]" by (simp add: register_Inr)
  with Cons.IH[OF a] show ?case by simp
qed

text \<open>The scenario chain: its links, its registration and its two paths.\<close>

lemma scenario_facts:
  "revision (scenario_R1 up down) = ''fa8d6eac1730''"
  "down_revision (scenario_R1 up down) = None"
  "upgrade (scenario_R1 up down) = up"
  "downgrade (scenario_R1 up down) = down"
  "revision scenario_R2 = ''134d9a43f339''"
  "down_revision scenario_R2 = Some ''fa8d6eac1730''"
  "revision scenario_R3 = ''2b864134392f''"
  "down_revision scenario_R3 = Some ''134d9a43f339''"
  "upgrade scenario_R3 = upgrade step_2b864134392f"
  "downgrade scenario_R3 = downgrade step_2b864134392f"
  by (simp_all add: scenario_R1_def scenario_R2_def scenario_R3_def step_134d9a43f339_def
        step_2b864134392f_def)

lemma scenario_registers:
  "register_all (scenario_chain up down) [] = Inr (scenario_chain up down)"
  by (simp add: register_def revisions_def scenario_chain_def scenario_facts)

lemma scenario_ascending:
  "resolvePath (scenario_chain up down) None (Some ''2b864134392f'') =
     Inr (Ascending, [scenario_R1 up down, scenario_R2, scenario_R3])"
  by (simp add: resolvePath_def scenario_chain_def lookup_def scenario_facts)

lemma scenario_descending:
  "resolvePath (scenario_chain up down) (Some ''2b864134392f'') (Some ''fa8d6eac1730'') =
     Inr (Descending, [scenario_R3, scenario_R2])"
  by (simp add: resolvePath_def scenario_chain_def lookup_def scenario_facts)

text \<open>
  C5 (as stated): after every successful register call the registry has exactly one
  step whose downRevision is null. Registering two steps without predecessor, one
  after the other, succeeds and leaves two roots.
\<close>

theorem register_accepts_second_root:
  "register_all [scenario_R1 [] [], scenario_R2\<lparr>down_revision := None\<rparr>] [] =
     Inr [scenario_R1 [] [], scenario_R2\<lparr>down_revision := None\<rparr>] \<and>
   length (roots [scenario_R1 [] [], scenario_R2\<lparr>down_revision := None\<rparr>]) = 2"
  by (simp add: register_def revisions_def scenario_R1_def scenario_R2_def
        step_134d9a43f339_def roots_def)

text \<open>
  C5 (amended): after every successful registration, starting from the empty
  registry, each revision id appears once, every downRevision that is not null
  refers to a registered revision, the predecessor relation has no cycle, and the
  chain of predecessors of every step ends below a step whose downRevision is null.
  \<open>register\<close> fails with DuplicateRevision on a revision id that is registered
  already, and with DanglingReference on a downRevision that is not registered.
  It accepts a second root and a second successor of a revision, so the registry
  need not be a single list.
\<close>

theorem register_all_invariant:
  "(register_all steps [] = Inr reg \<longrightarrow>
      reg = steps \<and> distinct (revisions reg) \<and>
      (\<forall>s \<in> set reg. \<forall>d. down_revision s = Some d \<longrightarrow> d \<in> set (revisions reg)) \<and>
      acyclic (pred_rel reg) \<and>
      (\<forall>s \<in> set reg. (Some (revision s), None) \<in> (pred_rel reg)\<^sup>*)) \<and>
   (revision s \<in> set (revisions reg0) \<longrightarrow>
      register s reg0 = Inl (DuplicateRevision (revision s))) \<and>
   (revision s' \<notin> set (revisions reg1) \<and> down_revision s' = Some d \<and>
    d \<notin> set (revisions reg1) \<longrightarrow>
      register s' reg1 = Inl (DanglingReference (revision s')))"
proof (intro conjI impI)
  assume r: "register_all steps [] = Inr reg"
  from register_all_inv[OF chain_inv_Nil r] have inv: "chain_inv reg" .
  from register_all_app[OF r] show "reg = steps" by simp
  from inv show "distinct (revisions reg)" by (simp add: chain_inv_def)
  from inv show "\<forall>s \<in> set reg. \<forall>d. down_revision s = Some d \<longrightarrow> d \<in> set (revisions reg)"
    by (auto simp: chain_inv_def closed_links_def list_all_iff split: option.splits)
  from inv show "acyclic (pred_rel reg)" by (simp add: chain_inv_def)
  from inv show "\<forall>s \<in> set reg. (Some (revision s), None) \<in> (pred_rel reg)\<^sup>*"
    by (simp add: chain_inv_def list_all_iff)
next
  assume "revision s \<in> set (revisions reg0)"
  then show "register s reg0 = Inl (DuplicateRevision (revision s))"
    by (simp add: register_def)
next
  assume "revision s' \<notin> set (revisions reg1) \<and> down_revision s' = Some d \<and>
    d \<notin> set (revisions reg1)"
  then show "register s' reg1 = Inl (DanglingReference (revision s'))"
    by (simp add: register_def)
qed

text \<open>The witness registers the scenario chain, with a root that has no operations;
  registering \<open>134d9a43f339\<close> a second time and registering \<open>2b864134392f\<close> as the
  script has it, with the predecessor \<open>edafe56964a0\<close> that is not registered, both
  fail.\<close>

theorem register_all_invariant_witness:
  "register_all (scenario_chain [] []) [] = Inr (scenario_chain [] []) \<and>
   distinct (revisions (scenario_chain [] [])) \<and>
   acyclic (pred_rel (scenario_chain [] [])) \<and>
   scenario_R3 \<in> set (scenario_chain [] []) \<and>
   down_revision scenario_R3 = Some ''134d9a43f339'' \<and>
   ''134d9a43f339'' \<in> set (revisions (scenario_chain [] [])) \<and>
   (Some ''2b864134392f'', None) \<in> (pred_rel (scenario_chain [] []))\<^sup>* \<and>
   register scenario_R2 (scenario_chain [] []) = Inl (DuplicateRevision ''134d9a43f339'') \<and>
   register step_2b864134392f [scenario_R1 [] [], scenario_R2] =
     Inl (DanglingReference ''2b864134392f'')"
proof -
  have r: "register_all (scenario_chain [] []) [] = Inr (scenario_chain [] [])"
    by (rule scenario_registers)
  have m: "scenario_R3 \<in> set (scenario_chain [] [])"
    by (simp add: scenario_chain_def)
  have dup: "revision scenario_R2 \<in> set (revisions (scenario_chain [] []))"
    by (simp add: revisions_def scenario_chain_def)
  have dang: "revision step_2b864134392f \<notin> set (revisions [scenario_R1 [] [], scenario_R2]) \<and>
      down_revision step_2b864134392f = Some ''edafe56964a0'' \<and>
      ''edafe56964a0'' \<notin> set (revisions [scenario_R1 [] [], scenario_R2])"
    by (simp add: revisions_def scenario_facts) (simp add: step_2b864134392f_def)
  from register_all_invariant[of "scenario_chain [] []" "scenario_chain [] []"] r
  have a: "distinct (revisions (scenario_chain [] []))"
    and b: "\<forall>s \<in> set (scenario_chain [] []). \<forall>d. down_revision s = Some d \<longrightarrow>
              d \<in> set (revisions (scenario_chain [] []))"
    and c: "acyclic (pred_rel (scenario_chain [] []))"
    and d: "\<forall>s \<in> set (scenario_chain [] []).
              (Some (revision s), None) \<in> (pred_rel (scenario_chain [] []))\<^sup>*"
    by blast+
  from register_all_invariant[of _ _ scenario_R2 "scenario_chain [] []"] dup
  have e: "register scenario_R2 (scenario_chain [] []) = Inl (DuplicateRevision ''134d9a43f339'')"
    by (simp add: scenario_facts)
  from register_all_invariant[of _ _ _ _ step_2b864134392f "[scenario_R1 [] [], scenario_R2]" "''edafe56964a0''"] dang
  have f: "register step_2b864134392f [scenario_R1 [] [], scenario_R2] =
     Inl (DanglingReference ''2b864134392f'')"
    by (simp add: step_2b864134392f_def)
  from b m have "''134d9a43f339'' \<in> set (revisions (scenario_chain [] []))"
    by (auto simp: scenario_facts)
  moreover from d m have "(Some ''2b864134392f'', None) \<in> (pred_rel (scenario_chain [] []))\<^sup>*"
    by (auto simp: scenario_facts)
  ultimately show ?thesis using r a c m e f by (simp add: scenario_facts)
qed

subsection \<open>The walk is long enough\<close>

text \<open>On a registry built by registration, a walk of as many steps as the registry
  has arrives whenever the predecessor relation connects the two revisions. So
  \<open>resolvePath\<close> on a registered chain returns a path exactly when its two revisions
  are connected, and \<open>NoPath\<close> otherwise.\<close>

lemma links_back_Nil: "links_back []"
  by (simp add: links_back_def)

lemma links_back_snoc:
  assumes "links_back reg"
    and "case down_revision s of None \<Rightarrow> True | Some d \<Rightarrow> d \<in> set (revisions reg)"
  shows "links_back (reg @ [s])"
  unfolding links_back_def
proof (intro allI impI)
  fix i assume "i < length (reg @ [s])"
  then consider "i < length reg" | "i = length reg" by fastforce
  then show "case down_revision ((reg @ [s]) ! i) of None \<Rightarrow> True
     | Some d \<Rightarrow> d \<in> set (revisions (take i (reg @ [s])))"
  proof cases
    case 1
    then have "take i (reg @ [s]) = take i reg" "(reg @ [s]) ! i = reg ! i"
      by (simp_all add: nth_append)
    with assms(1) 1 show ?thesis by (auto simp: links_back_def split: option.splits)
  next
    case 2
    with assms(2) show ?thesis by (auto split: option.splits)
  qed
qed

lemma register_all_links_back:
  "links_back reg \<Longrightarrow> register_all steps reg = Inr reg' \<Longrightarrow> links_back reg'"
proof (induction steps arbitrary: reg)
  case Nil
  then show ?case by simp
next
  case (Cons s steps)
  from Cons.prems(2) obtain r where r: "register s reg = Inr r"
    and a: "register_all steps r = Inr reg'"
    by (auto split: sum.splits)
  from r Cons.prems(1) have "links_back r"
    by (auto simp: register_Inr intro: links_back_snoc)
  from Cons.IH[OF this a] show ?case .
qed

lemma lookup_nth:
  assumes "distinct (revisions reg)" "i < length reg"
  shows "lookup reg (revision (reg ! i)) = Some (reg ! i)"
proof -
  have "\<exists>j < length reg. revision (reg ! j) = revision (reg ! i) \<and> reg ! i = reg ! j \<and>
      (\<forall>k < j. revision (reg ! k) \<noteq> revision (reg ! i))"
  proof (intro exI[of _ i] conjI allI impI)
    fix k assume "k < i"
    with assms show "revision (reg ! k) \<noteq> revision (reg ! i)"
      by (auto simp: revisions_def distinct_conv_nth)
  qed (use assms in simp_all)
  then show ?thesis by (simp add: lookup_def find_Some_iff)
qed

lemma pred_rel_None: "(None, y) \<notin> pred_rel reg"
  by (auto simp: pred_rel_def)

lemma reach_from_None: "(None, y) \<in> (pred_rel reg)\<^sup>* \<Longrightarrow> y = None"
  by (erule converse_rtranclE) (auto simp: pred_rel_None)

lemma pred_rel_nth:
  assumes "distinct (revisions reg)" "i < length reg"
    and "(Some (revision (reg ! i)), y) \<in> pred_rel reg"
  shows "y = down_revision (reg ! i)"
proof -
  from assms(3) obtain s where s: "s \<in> set reg" "revision s = revision (reg ! i)" "y = down_revision s"
    by (auto simp: pred_rel_def)
  from assms(2) have "reg ! i \<in> set reg" by simp
  with assms(1) s(1,2) have "s = reg ! i"
    unfolding revisions_def by (meson distinct_map inj_onD)
  with s(3) show ?thesis by simp
qed

lemma walk_complete_nth:
  assumes dist: "distinct (revisions reg)" and lb: "links_back reg"
  shows "i < length reg \<Longrightarrow> i < n \<Longrightarrow> (Some (revision (reg ! i)), stop) \<in> (pred_rel reg)\<^sup>* \<Longrightarrow>
         walk n reg stop (Some (revision (reg ! i))) \<noteq> None"
proof (induction i arbitrary: n rule: less_induct)
  case (less i)
  from less.prems(2) obtain m where n: "n = Suc m" and m: "i \<le> m" by (cases n) auto
  show ?case
  proof (cases "Some (revision (reg ! i)) = stop")
    case True
    then show ?thesis by (simp add: n)
  next
    case False
    from less.prems(3) False obtain y where y1: "(Some (revision (reg ! i)), y) \<in> pred_rel reg"
      and y2: "(y, stop) \<in> (pred_rel reg)\<^sup>*"
      by (auto elim: converse_rtranclE)
    from pred_rel_nth[OF dist less.prems(1) y1] have y: "y = down_revision (reg ! i)" .
    have l: "lookup reg (revision (reg ! i)) = Some (reg ! i)"
      using dist less.prems(1) by (rule lookup_nth)
    have "walk m reg stop (down_revision (reg ! i)) \<noteq> None"
    proof (cases "down_revision (reg ! i)")
      case None
      with y y2 have "stop = None" by (auto dest: reach_from_None)
      with None show ?thesis by (cases m) simp_all
    next
      case (Some d)
      with lb less.prems(1) have "d \<in> set (revisions (take i reg))"
        by (auto simp: links_back_def split: option.splits)
      then obtain j where j: "j < i" "j < length reg" "revision (reg ! j) = d"
        using less.prems(1) by (auto simp: revisions_def in_set_conv_nth)
      from j(1) m have "j < m" by simp
      from less.IH[OF j(1) j(2) this] y y2 Some j(3) show ?thesis by simp
    qed
    with False l show ?thesis by (auto simp: n)
  qed
qed

lemma walk_complete:
  assumes dist: "distinct (revisions reg)" and lb: "links_back reg"
    and reach: "(cur, stop) \<in> (pred_rel reg)\<^sup>*"
  shows "walk (length reg) reg stop cur \<noteq> None"
proof (cases "cur = stop")
  case True
  then show ?thesis by (cases "length reg") simp_all
next
  case False
  with reach obtain y where "(cur, y) \<in> pred_rel reg" by (auto elim: converse_rtranclE)
  then obtain i where i: "i < length reg" "cur = Some (revision (reg ! i))"
    by (auto simp: pred_rel_def in_set_conv_nth)
  from walk_complete_nth[OF dist lb i(1) i(1)] reach i(2) show ?thesis by simp
qed

lemma resolvePath_connected:
  assumes "distinct (revisions reg)" "links_back reg"
    and "(a, b) \<in> (pred_rel reg)\<^sup>* \<or> (b, a) \<in> (pred_rel reg)\<^sup>*"
  shows "\<exists>dir p. resolvePath reg a b = Inr (dir, p)"
  using assms walk_complete[of reg a b] walk_complete[of reg b a]
  by (auto simp: resolvePath_def split: option.splits)

lemma resolvePath_registered:
  assumes "register_all steps [] = Inr reg"
  shows "(\<exists>dir p. resolvePath reg a b = Inr (dir, p)) \<longleftrightarrow>
         (a, b) \<in> (pred_rel reg)\<^sup>* \<or> (b, a) \<in> (pred_rel reg)\<^sup>*"
proof
  assume r: "\<exists>dir p. resolvePath reg a b = Inr (dir, p)"
  show "(a, b) \<in> (pred_rel reg)\<^sup>* \<or> (b, a) \<in> (pred_rel reg)\<^sup>*"
  proof (rule ccontr)
    assume "\<not> ((a, b) \<in> (pred_rel reg)\<^sup>* \<or> (b, a) \<in> (pred_rel reg)\<^sup>*)"
    then have "resolvePath reg a b = Inl (NoPath a b)"
      by (simp add: resolvePath_unconnected)
    with r show False by simp
  qed
next
  assume c: "(a, b) \<in> (pred_rel reg)\<^sup>* \<or> (b, a) \<in> (pred_rel reg)\<^sup>*"
  from register_all_inv[OF chain_inv_Nil assms] have "distinct (revisions reg)"
    by (simp add: chain_inv_def)
  moreover from register_all_links_back[OF links_back_Nil assms] have "links_back reg" .
  ultimately show "\<exists>dir p. resolvePath reg a b = Inr (dir, p)"
    using c by (rule resolvePath_connected)
qed

subsection \<open>Migrating along a path\<close>

lemma walk_linked: "walk n reg stop cur = Some p \<Longrightarrow> linked cur p stop"
proof (induction n arbitrary: cur p)
  case 0
  then show ?case by (auto split: if_splits)
next
  case (Suc n)
  show ?case
  proof (cases "cur = stop")
    case True
    with Suc.prems show ?thesis by auto
  next
    case False
    with Suc.prems obtain r s q where cur: "cur = Some r" and l: "lookup reg r = Some s"
      and w: "walk n reg stop (down_revision s) = Some q" and p: "p = s # q"
      by (auto split: option.splits)
    from Suc.IH[OF w] lookup_SomeD[OF l] show ?thesis by (simp add: cur p)
  qed
qed

lemma linked_append:
  "linked cur (xs @ ys) stop \<Longrightarrow> \<exists>mid. linked cur xs mid \<and> linked mid ys stop"
  by (induction xs arbitrary: cur) auto

lemma ascending_linked:
  "resolvePath reg from to = Inr (Ascending, q) \<Longrightarrow> linked to (rev q) from"
  by (auto simp: resolvePath_def split: option.splits dest: walk_linked)

lemma ascending_predecessor:
  assumes "resolvePath reg from to = Inr (Ascending, pre @ s # post)"
  shows "down_revision s = (if pre = [] then from else Some (revision (last pre)))"
proof -
  from ascending_linked[OF assms] have "linked to (rev post @ s # rev pre) from" by simp
  then obtain mid where "linked mid (s # rev pre) from" using linked_append by blast
  then have l: "linked (down_revision s) (rev pre) from" by simp
  show ?thesis
  proof (cases pre rule: rev_cases)
    case Nil
    with l show ?thesis by simp
  next
    case (snoc ys y)
    with l show ?thesis by simp
  qed
qed

lemma run_path_append:
  "run_path ex dir (pre @ rest) w =
     (case run_path ex dir pre w of
        (None, w1) \<Rightarrow> run_path ex dir rest w1
      | (Some e, w1) \<Rightarrow> (Some e, w1))"
  by (induction pre arbitrary: w) (auto split: prod.splits option.splits)

lemma apply_step_completed:
  "apply_step ex s w = (None, w') \<Longrightarrow> chain_state w' = Some (revision s)"
  by (auto simp: apply_step_def split: prod.splits option.splits)

lemma ascending_chain_state:
  "run_path ex Ascending pre w = (None, w1) \<Longrightarrow>
   chain_state w1 = (if pre = [] then chain_state w else Some (revision (last pre)))"
proof (induction pre arbitrary: w)
  case Nil
  then show ?case by simp
next
  case (Cons s pre)
  from Cons.prems obtain w' where a: "apply_step ex s w = (None, w')"
    and r: "run_path ex Ascending pre w' = (None, w1)"
    by (auto split: prod.splits option.splits)
  from Cons.IH[OF r] apply_step_completed[OF a] show ?case by simp
qed

lemma descending_linked:
  "resolvePath reg from to = Inr (Descending, q) \<Longrightarrow> linked from q to"
  by (auto simp: resolvePath_def split: option.splits dest: walk_linked)

lemma linked_last:
  "linked cur p stop \<Longrightarrow> stop = (if p = [] then cur else down_revision (last p))"
  by (induction p arbitrary: cur) auto

lemma descending_current:
  assumes "resolvePath reg from to = Inr (Descending, pre @ s # post)"
  shows "Some (revision s) = (if pre = [] then from else down_revision (last pre))"
proof -
  from descending_linked[OF assms] obtain mid where
    a: "linked from pre mid" and b: "linked mid (s # post) to"
    using linked_append by blast
  from b have "mid = Some (revision s)" by simp
  with linked_last[OF a] show ?thesis by simp
qed

lemma revert_step_completed:
  "revert_step ex s w = (None, w') \<Longrightarrow> chain_state w' = down_revision s"
  by (auto simp: revert_step_def split: prod.splits option.splits)

lemma descending_chain_state:
  "run_path ex Descending pre w = (None, w1) \<Longrightarrow>
   chain_state w1 = (if pre = [] then chain_state w else down_revision (last pre))"
proof (induction pre arbitrary: w)
  case Nil
  then show ?case by simp
next
  case (Cons s pre)
  from Cons.prems obtain w' where a: "revert_step ex s w = (None, w')"
    and r: "run_path ex Descending pre w' = (None, w1)"
    by (auto split: prod.splits option.splits)
  from Cons.IH[OF r] revert_step_completed[OF a] show ?case by simp
qed

lemma run_step_second_fails:
  assumes "edits_of dir s = e1 # e2 # es" "ex e1 (db w1) = Inr d1" "ex e2 d1 = Inl c"
  shows "run_step ex dir s w1 =
    (Some (step_failed dir (revision s) c), \<lparr>db = d1, chain_state = chain_state w1\<rparr>)"
  using assms
  by (cases dir) (simp_all add: edits_of_def step_failed_def apply_step_def revert_step_def)

text \<open>
  C6: in a run of \<open>migrate\<close>, started with ChainState at the revision it migrates
  from, let the steps before some step \<open>s\<close> of the path complete, let the first edit
  of \<open>s\<close> succeed and its second edit fail. Then \<open>migrate\<close> stops there and reports
  the failure of \<open>s\<close> with the cause of that edit; the schema is the one the first edit
  of \<open>s\<close> produced, so that edit is not rolled back, and neither are the completed
  steps; ChainState is where the last completed step left it. In an ascending run
  (the failing edit is one of an upgrade, as the creation of the foreign key is) that
  is the revision of the predecessor of \<open>s\<close>, which is the last step that completed.
  In a descending run it is the revision of \<open>s\<close> itself, which is still applied.
\<close>

theorem migrate_second_edit_fails:
  assumes path: "resolvePath reg from to = Inr (dir, pre @ s # post)"
    and start: "chain_state w = from"
    and completed: "run_path ex dir pre w = (None, w1)"
    and edits: "edits_of dir s = e1 # e2 # es"
    and first: "ex e1 (db w1) = Inr d1"
    and second: "ex e2 d1 = Inl c"
  shows "migrate ex reg from to w =
           (Some (step_failed dir (revision s) c), \<lparr>db = d1, chain_state = chain_state w1\<rparr>) \<and>
         chain_state w1 = (case dir of Ascending \<Rightarrow> down_revision s | Descending \<Rightarrow> Some (revision s)) \<and>
         (dir = Ascending \<longrightarrow>
            down_revision s = (if pre = [] then from else Some (revision (last pre))))"
proof -
  have "run_path ex dir (pre @ s # post) w =
          (Some (step_failed dir (revision s) c), \<lparr>db = d1, chain_state = chain_state w1\<rparr>)"
    using completed run_step_second_fails[OF edits first second]
    by (simp add: run_path_append)
  then have m: "migrate ex reg from to w =
      (Some (step_failed dir (revision s) c), \<lparr>db = d1, chain_state = chain_state w1\<rparr>)"
    using path by (simp add: migrate_def)
  show ?thesis
  proof (cases dir)
    case Ascending
    with path have p: "down_revision s = (if pre = [] then from else Some (revision (last pre)))"
      by (intro ascending_predecessor) simp
    from completed Ascending have "chain_state w1 = down_revision s"
      using ascending_chain_state[of ex pre w w1] start p by simp
    with m p Ascending show ?thesis by simp
  next
    case Descending
    with path have p: "Some (revision s) = (if pre = [] then from else down_revision (last pre))"
      by (intro descending_current) simp
    from completed Descending have "chain_state w1 = Some (revision s)"
      using descending_chain_state[of ex pre w w1] start p by simp
    with m Descending show ?thesis by simp
  qed
qed

text \<open>The witness migrates the scenario chain from nothing to \<open>2b864134392f\<close> on
  \<open>posts_only\<close>: the column \<open>owner_id\<close> is added, the foreign key cannot be created
  without the table \<open>users\<close>, and the chain stays at \<open>134d9a43f339\<close> with the column
  \<open>owner_id\<close> in place.\<close>

theorem migrate_second_edit_fails_witness:
  "resolvePath (scenario_chain [] []) None (Some ''2b864134392f'') =
     Inr (Ascending, [scenario_R1 [] [], scenario_R2] @ scenario_R3 # []) \<and>
   run_path exec_edit Ascending [scenario_R1 [] [], scenario_R2]
       \<lparr>db = posts_only, chain_state = None\<rparr> =
     (None, \<lparr>db = posts_only\<lparr>columns := [(''posts'', id_column),
        (''posts'', \<lparr> col_name = ''content'', col_type = sa_String, nullable = False,
            server_default = None \<rparr>)]\<rparr>,
        chain_state = Some ''134d9a43f339''\<rparr>) \<and>
   exec_edit (create_foreign_key ''post_user_fk'' ''posts'' ''users'' [''owner_id''] [''id'']
        (Some ''CASCADE''))
      (posts_only\<lparr>columns := [(''posts'', id_column),
        (''posts'', \<lparr> col_name = ''content'', col_type = sa_String, nullable = False,
            server_default = None \<rparr>),
        (''posts'', \<lparr> col_name = ''owner_id'', col_type = sa_Integer, nullable = False,
            server_default = None \<rparr>)]\<rparr>) = Inl (NoSuchTable ''users'') \<and>
   migrate exec_edit (scenario_chain [] []) None (Some ''2b864134392f'')
       \<lparr>db = posts_only, chain_state = None\<rparr> =
     (Some (ApplyFailed ''2b864134392f'' (NoSuchTable ''users'')),
      \<lparr>db = posts_only\<lparr>columns := [(''posts'', id_column),
        (''posts'', \<lparr> col_name = ''content'', col_type = sa_String, nullable = False,
            server_default = None \<rparr>),
        (''posts'', \<lparr> col_name = ''owner_id'', col_type = sa_Integer, nullable = False,
            server_default = None \<rparr>)]\<rparr>,
       chain_state = Some ''134d9a43f339''\<rparr>)"
proof -
  let ?content = "\<lparr> col_name = ''content'', col_type = sa_String, nullable = False,
            server_default = None \<rparr>"
  let ?owner = "\<lparr> col_name = ''owner_id'', col_type = sa_Integer, nullable = False,
            server_default = None \<rparr>"
  let ?e1 = "add_column ''posts'' ?owner"
  let ?e2 = "create_foreign_key ''post_user_fk'' ''posts'' ''users'' [''owner_id''] [''id'']
        (Some ''CASCADE'')"
  let ?w = "\<lparr>db = posts_only, chain_state = None\<rparr>"
  let ?d0 = "posts_only\<lparr>columns := [(''posts'', id_column), (''posts'', ?content)]\<rparr>"
  let ?w1 = "\<lparr>db = ?d0, chain_state = Some ''134d9a43f339''\<rparr>"
  let ?d1 = "posts_only\<lparr>columns := [(''posts'', id_column), (''posts'', ?content),
        (''posts'', ?owner)]\<rparr>"
  have path: "resolvePath (scenario_chain [] []) None (Some ''2b864134392f'') =
     Inr (Ascending, [scenario_R1 [] [], scenario_R2] @ scenario_R3 # [])"
    by (simp add: scenario_ascending)
  have start: "chain_state ?w = None" by simp
  have completed: "run_path exec_edit Ascending [scenario_R1 [] [], scenario_R2] ?w = (None, ?w1)"
    by (simp add: apply_step_def scenario_facts)
      (simp add: scenario_R2_def step_134d9a43f339_def posts_only_def id_column_def
         has_column_def column_names_def)
  have edits: "edits_of Ascending scenario_R3 = ?e1 # ?e2 # []"
    by (simp add: edits_of_def scenario_facts) (simp add: step_2b864134392f_def)
  have first: "exec_edit ?e1 (db ?w1) = Inr ?d1"
    by (simp add: posts_only_def id_column_def has_column_def column_names_def)
  have second: "exec_edit ?e2 ?d1 = Inl (NoSuchTable ''users'')"
    by (simp add: posts_only_def)
  from migrate_second_edit_fails[OF path start completed edits first second]
  have "migrate exec_edit (scenario_chain [] []) None (Some ''2b864134392f'') ?w =
     (Some (ApplyFailed ''2b864134392f'' (NoSuchTable ''users'')),
      \<lparr>db = ?d1, chain_state = Some ''134d9a43f339''\<rparr>)"
    by (simp add: scenario_facts step_failed_def)
  with path completed second show ?thesis by simp
qed

subsection \<open>The order of the steps\<close>

lemma run_edits_record: "run_edits record_edit es log = (None, log @ es)"
  by (induction es arbitrary: log) (auto simp: record_edit_def)

text \<open>
  C4 (as stated): the step adding \<open>owner_id\<close> and the foreign key has the step adding
  \<open>content\<close> as its direct predecessor. In the scripts, the \<open>down_revision\<close> of
  \<open>2b864134392f\<close> is \<open>edafe56964a0\<close>, not the revision \<open>134d9a43f339\<close> of the step
  that adds \<open>content\<close>.
\<close>

theorem owner_id_step_predecessor_not_content_step:
  "added_columns (upgrade step_2b864134392f) = [(''posts'', ''owner_id'')] \<and>
   created_constraints (upgrade step_2b864134392f) = [(''post_user_fk'', ''posts'')] \<and>
   added_columns (upgrade step_134d9a43f339) = [(''posts'', ''content'')] \<and>
   down_revision step_2b864134392f = Some ''edafe56964a0'' \<and>
   down_revision step_2b864134392f \<noteq> Some (revision step_134d9a43f339)"
  by (simp add: step_134d9a43f339_def step_2b864134392f_def)

text \<open>
  C4 (amended): in the scripts, the step adding \<open>owner_id\<close> and the foreign key
  (\<open>2b864134392f\<close>) has \<open>edafe56964a0\<close> as its direct predecessor, the step adding
  \<open>content\<close> (\<open>134d9a43f339\<close>) has \<open>fa8d6eac1730\<close>, and \<open>5b5d2975fa05\<close> has
  \<open>2b864134392f\<close>; no script among the three is a root. For the chain linked as the
  scenario has it (a root R1, R2 adding \<open>content\<close> on R1, R3 adding \<open>owner_id\<close> and
  the foreign key on R2), registration succeeds; \<open>migrate(null, R3)\<close> applies R1, R2,
  R3 in that order and \<open>migrate(R3, R1)\<close> reverts R3, then R2, in that order, each
  stopping at the first failure; when every edit succeeds, the edits run are those of
  the upgrades of R1, R2, R3, respectively of the downgrades of R3, R2, in sequence,
  and ChainState ends at R3, respectively at R1.
\<close>

theorem scenario_chain_migrate_order:
  "down_revision step_2b864134392f = Some ''edafe56964a0'' \<and>
   down_revision step_134d9a43f339 = Some ''fa8d6eac1730'' \<and>
   down_revision step_5b5d2975fa05 = Some (revision step_2b864134392f) \<and>
   register_all (scenario_chain up down) [] = Inr (scenario_chain up down) \<and>
   down_revision (scenario_R1 up down) = None \<and>
   down_revision scenario_R2 = Some (revision (scenario_R1 up down)) \<and>
   down_revision scenario_R3 = Some (revision scenario_R2) \<and>
   migrate ex (scenario_chain up down) None (Some (revision scenario_R3)) w =
     run_path ex Ascending [scenario_R1 up down, scenario_R2, scenario_R3] w \<and>
   migrate ex (scenario_chain up down) (Some (revision scenario_R3))
       (Some (revision (scenario_R1 up down))) w =
     run_path ex Descending [scenario_R3, scenario_R2] w \<and>
   migrate record_edit (scenario_chain up down) None (Some (revision scenario_R3))
       \<lparr>db = [], chain_state = None\<rparr> =
     (None, \<lparr>db = up @ upgrade scenario_R2 @ upgrade scenario_R3,
             chain_state = Some (revision scenario_R3)\<rparr>) \<and>
   migrate record_edit (scenario_chain up down) (Some (revision scenario_R3))
       (Some (revision (scenario_R1 up down)))
       \<lparr>db = [], chain_state = Some (revision scenario_R3)\<rparr> =
     (None, \<lparr>db = downgrade scenario_R3 @ downgrade scenario_R2,
             chain_state = Some (revision (scenario_R1 up down))\<rparr>)"
proof -
  have src: "down_revision step_2b864134392f = Some ''edafe56964a0''"
    "down_revision step_134d9a43f339 = Some ''fa8d6eac1730''"
    "down_revision step_5b5d2975fa05 = Some (revision step_2b864134392f)"
    by (simp_all add: step_134d9a43f339_def step_2b864134392f_def step_5b5d2975fa05_def)
  show ?thesis
    by (simp add: src migrate_def scenario_ascending scenario_descending scenario_registers
          apply_step_def revert_step_def run_edits_record scenario_facts)
qed

end
